theory Spec2Isabelle
  imports
    Complex_Main
    "HOL-Library.Char_ord"
    "HOL-Library.List_Lexorder"
    "HOL-Library.Product_Lexorder"
    "HOL-Library.Multiset"
begin

section \<open>Data model of \<^verbatim>\<open>build_sp500_history.py\<close>\<close>

text \<open>
  Dates are day numbers (days since 1970-01-01), so \<^verbatim>\<open>timedelta(days=7)\<close> is the
  integer 7 and \<^verbatim>\<open>datetime(2023, 6, 1)\<close> is 19509. The builder's dates lie far inside
  the range of \<^verbatim>\<open>datetime\<close>, whose limits (years 1 to 9999) are not modelled, and
  every date is a whole day. Strings are ASCII byte lists ordered as Python orders
  \<^verbatim>\<open>str\<close>: lexicographically by character code, a proper prefix first. A Python
  tuple is a HOL tuple with the lexicographic order of \<^verbatim>\<open>Product_Lexorder\<close>.
\<close>

type_synonym datetime = int

text \<open>An entry of \<^verbatim>\<open>change_log\<close>: the tuple \<^verbatim>\<open>(date, ticker, action, name)\<close>.\<close>

type_synonym event = "datetime \<times> string \<times> string \<times> string"

datatype py_error = AttributeError | IndexError | ZeroDivisionError

text \<open>
  A row of \<^verbatim>\<open>changes_table\<close>. The field \<open>date\<close> holds the outcome of
  \<^verbatim>\<open>pd.to_datetime(row['date'])\<close>: \<open>None\<close> where that call raises. The other cells
  are \<open>Some s\<close> for a \<^verbatim>\<open>str\<close> and \<open>None\<close> for anything else (pandas reads an empty
  cell as the float NaN). A parsed date is a proper timestamp: the not-a-time value that
  \<^verbatim>\<open>pd.to_datetime\<close> returns for an empty date cell is not modelled.
\<close>

record change_row =
  date :: "datetime option"
  added_tickers :: "string option"
  added_names :: "string option"
  removed_tickers :: "string option"
  removed_names :: "string option"
  row_notes :: "string option"

text \<open>One dict of \<^verbatim>\<open>weekly_snapshots\<close>; \<open>week_start\<close> is kept as the date that
  \<^verbatim>\<open>strftime('%Y-%m-%d')\<close> renders.\<close>

record snapshot =
  week_start :: datetime
  tickers :: "string list"
  names :: "string list"

section \<open>String helpers\<close>

text \<open>\<^verbatim>\<open>s.split(',')\<close>: the pieces between the separators, never an empty list.\<close>

fun str_split :: "char \<Rightarrow> string \<Rightarrow> string list" where
  "str_split sep [] = [[]]"
| "str_split sep (c # cs) =
     (let ps = str_split sep cs
      in if c = sep then [] # ps else (c # hd ps) # tl ps)"

text \<open>The ASCII characters that \<^verbatim>\<open>str.strip()\<close> removes: codes 9 to 13 and 28 to 32.\<close>

definition isspace :: "char \<Rightarrow> bool" where
  "isspace c = (let n = (of_char c :: nat) in (9 \<le> n \<and> n \<le> 13) \<or> (28 \<le> n \<and> n \<le> 32))"

definition str_strip :: "string \<Rightarrow> string" where
  "str_strip s = rev (dropWhile isspace (rev (dropWhile isspace s)))"

definition upper_char :: "char \<Rightarrow> char" where
  "upper_char c =
     (if CHR ''a'' \<le> c \<and> c \<le> CHR ''z'' then char_of (of_char c - (32::nat)) else c)"

definition str_upper :: "string \<Rightarrow> string" where
  "str_upper s = map upper_char s"

section \<open>Steps 2 and 3: the name mapping and the change log\<close>

text \<open>\<^verbatim>\<open>dict(zip(keys, values))\<close>: a later pair overwrites an earlier one.\<close>

definition dict_zip :: "'k list \<Rightarrow> 'v list \<Rightarrow> ('k \<rightharpoonup> 'v)" where
  "dict_zip ks vs = fold (\<lambda>(k, v) m. m(k \<mapsto> v)) (zip ks vs) Map.empty"

text \<open>
  The body of \<^verbatim>\<open>for t, n in zip(tickers, names)\<close>: append the event and overwrite the
  name of the ticker.
\<close>

definition record_event ::
  "datetime \<Rightarrow> string \<Rightarrow> string \<times> string \<Rightarrow> event list \<times> (string \<rightharpoonup> string)
   \<Rightarrow> event list \<times> (string \<rightharpoonup> string)" where
  "record_event d action tn st =
     (case tn of (t, n) \<Rightarrow>
        (case st of (change_log, ticker_to_name) \<Rightarrow>
           (change_log @ [(d, t, action, n)], ticker_to_name(t \<mapsto> n))))"

text \<open>
  One of the two \<^verbatim>\<open>if isinstance(row[...], str)\<close> blocks of the parsing loop (they
  differ in the columns read and in the action recorded). A names cell that is not a
  \<^verbatim>\<open>str\<close> has no \<^verbatim>\<open>split\<close>: the script stops with an AttributeError.
\<close>

definition record_side ::
  "string \<Rightarrow> datetime \<Rightarrow> string option \<Rightarrow> string option
   \<Rightarrow> event list \<times> (string \<rightharpoonup> string)
   \<Rightarrow> py_error + event list \<times> (string \<rightharpoonup> string)" where
  "record_side action d tickers_cell names_cell st =
     (case tickers_cell of
        None \<Rightarrow> Inr st
      | Some ts \<Rightarrow>
          (case names_cell of
             None \<Rightarrow> Inl AttributeError
           | Some ns \<Rightarrow>
               Inr (fold (record_event d action)
                      (zip (map (\<lambda>t. str_upper (str_strip t)) (str_split CHR '','' ts))
                           (map str_strip (str_split CHR '','' ns)))
                      st)))"

text \<open>One iteration of \<^verbatim>\<open>for _, row in changes_table.iterrows()\<close>.\<close>

definition parse_row ::
  "change_row \<Rightarrow> event list \<times> (string \<rightharpoonup> string)
   \<Rightarrow> py_error + event list \<times> (string \<rightharpoonup> string)" where
  "parse_row row st =
     (case date row of
        None \<Rightarrow> Inr st
      | Some d \<Rightarrow>
          (case record_side ''ADD'' d (added_tickers row) (added_names row) st of
             Inl e \<Rightarrow> Inl e
           | Inr st' \<Rightarrow>
               record_side ''REMOVE'' d (removed_tickers row) (removed_names row) st'))"

fun parse_changes ::
  "change_row list \<Rightarrow> event list \<times> (string \<rightharpoonup> string)
   \<Rightarrow> py_error + event list \<times> (string \<rightharpoonup> string)" where
  "parse_changes [] st = Inr st"
| "parse_changes (row # rows) st =
     (case parse_row row st of Inl e \<Rightarrow> Inl e | Inr st' \<Rightarrow> parse_changes rows st')"

text \<open>
  \<^verbatim>\<open>change_log.sort(reverse=True)\<close>: Python's stable sort into descending order of
  the whole tuple. Inserting from the right keeps elements that compare equal in their
  input order.
\<close>

fun insort_desc :: "'a::linorder \<Rightarrow> 'a list \<Rightarrow> 'a list" where
  "insort_desc x [] = [x]"
| "insort_desc x (y # ys) = (if y \<le> x then x # y # ys else y # insort_desc x ys)"

definition sort_reverse :: "'a::linorder list \<Rightarrow> 'a list" where
  "sort_reverse xs = foldr insort_desc xs []"

section \<open>Step 4: the backward replay\<close>

text \<open>The body of the inner loop: \<^verbatim>\<open>discard\<close> for an ADD, \<^verbatim>\<open>add\<close> for a REMOVE.\<close>

fun undo :: "event \<Rightarrow> string set \<Rightarrow> string set" where
  "undo (_, ticker, action, _) constituents =
     (if action = ''ADD'' then constituents - {ticker}
      else if action = ''REMOVE'' then insert ticker constituents
      else constituents)"

text \<open>\<^verbatim>\<open>while change_log and change_log[0][0] > snapshot_date\<close>, popping the front.\<close>

fun undo_newer :: "datetime \<Rightarrow> event list \<Rightarrow> string set \<Rightarrow> event list \<times> string set" where
  "undo_newer snapshot_date [] constituents = ([], constituents)"
| "undo_newer snapshot_date (e # change_log) constituents =
     (if fst e > snapshot_date then undo_newer snapshot_date change_log (undo e constituents)
      else (e # change_log, constituents))"

text \<open>
  \<^verbatim>\<open>sorted(constituents)\<close> walks the hash set in an order that changes from run to run
  (string hashes are salted per process) and sorts what it meets. The argument \<open>xs\<close> is
  the sequence the walk yields.
\<close>

definition py_sorted :: "'a::linorder list \<Rightarrow> 'a list" where
  "py_sorted xs = sort xs"

text \<open>\<^verbatim>\<open>ticker_to_name.get(t, "NA")\<close>\<close>

definition get_name :: "(string \<rightharpoonup> string) \<Rightarrow> string \<Rightarrow> string" where
  "get_name ticker_to_name t = (case ticker_to_name t of None \<Rightarrow> ''NA'' | Some n \<Rightarrow> n)"

definition make_snapshot :: "(string \<rightharpoonup> string) \<Rightarrow> datetime \<Rightarrow> string list \<Rightarrow> snapshot" where
  "make_snapshot ticker_to_name snapshot_date walk =
     \<lparr> week_start = snapshot_date,
       tickers = py_sorted walk,
       names = map (get_name ticker_to_name) (py_sorted walk) \<rparr>"

text \<open>
  The outer loop, on the state \<^verbatim>\<open>(change_log, constituents, weekly_snapshots)\<close>. The
  parameter \<open>walk\<close> gives, for a snapshot date and the working set at that date, the
  order in which this run's hash set yields its elements.
\<close>

function weekly_loop ::
  "(datetime \<Rightarrow> string set \<Rightarrow> string list) \<Rightarrow> (string \<rightharpoonup> string) \<Rightarrow> datetime \<Rightarrow> datetime
   \<Rightarrow> event list \<times> string set \<times> snapshot list
   \<Rightarrow> event list \<times> string set \<times> snapshot list" where
  "weekly_loop walk ticker_to_name start_date snapshot_date st =
     (case st of (change_log, constituents, weekly_snapshots) \<Rightarrow>
        if snapshot_date \<ge> start_date then
          (case undo_newer snapshot_date change_log constituents of
             (change_log', constituents') \<Rightarrow>
               weekly_loop walk ticker_to_name start_date (snapshot_date - 7)
                 (change_log', constituents',
                  weekly_snapshots @
                    [make_snapshot ticker_to_name snapshot_date
                       (walk snapshot_date constituents')]))
        else st)"
  by pat_completeness auto
termination
  by (relation "measure (\<lambda>(w, m, s, d, st). nat (d - s + 1))") auto

declare weekly_loop.simps [simp del]

text \<open>Step 4 as a whole: \<^verbatim>\<open>weekly_snapshots\<close> once the outer loop has ended.\<close>

definition weekly_snapshots ::
  "(datetime \<Rightarrow> string set \<Rightarrow> string list) \<Rightarrow> (string \<rightharpoonup> string) \<Rightarrow> datetime \<Rightarrow> datetime
   \<Rightarrow> event list \<Rightarrow> string set \<Rightarrow> snapshot list" where
  "weekly_snapshots walk ticker_to_name start_date end_date change_log current_sp500 =
     snd (snd (weekly_loop walk ticker_to_name start_date end_date
                 (change_log, current_sp500, [])))"

text \<open>
  The script from the two tables to \<^verbatim>\<open>weekly_snapshots\<close>, with \<^verbatim>\<open>start_date\<close> and
  \<^verbatim>\<open>end_date\<close> as parameters (the script fixes them to 2022-01-03 and 2025-01-06).
  \<open>current_table\<close> is the list of \<^verbatim>\<open>(Symbol, Security)\<close> rows.
\<close>

definition build_history ::
  "(datetime \<Rightarrow> string set \<Rightarrow> string list) \<Rightarrow> (string \<times> string) list \<Rightarrow> change_row list
   \<Rightarrow> datetime \<Rightarrow> datetime \<Rightarrow> py_error + snapshot list" where
  "build_history walk current_table changes_table start_date end_date =
     (let current_sp500 = set (map fst current_table);
          ticker_to_name = dict_zip (map fst current_table) (map snd current_table)
      in case parse_changes changes_table ([], ticker_to_name) of
           Inl e \<Rightarrow> Inl e
         | Inr (change_log, ticker_to_name') \<Rightarrow>
             Inr (weekly_snapshots walk ticker_to_name' start_date end_date
                    (sort_reverse change_log) current_sp500))"

section \<open>Notions used to state the properties of the builder\<close>

text \<open>
  A walk is faithful when, at every date, it yields each element of a finite set once, as
  iterating a Python set does, in whatever order.
\<close>

definition enumerates :: "(datetime \<Rightarrow> string set \<Rightarrow> string list) \<Rightarrow> bool" where
  "enumerates walk = (\<forall>d S. finite S \<longrightarrow> set (walk d S) = S \<and> distinct (walk d S))"

text \<open>The number of passes of the outer loop that starts at date \<open>d\<close>.\<close>

definition weeks :: "datetime \<Rightarrow> datetime \<Rightarrow> nat" where
  "weeks start_date d = (if start_date \<le> d then nat ((d - start_date) div 7 + 1) else 0)"

text \<open>The working set once the front of the queue holds no event later than \<open>d\<close>.\<close>

definition members_at :: "event list \<Rightarrow> string set \<Rightarrow> datetime \<Rightarrow> string set" where
  "members_at change_log current_sp500 d =
     fold undo (takeWhile (\<lambda>e. d < fst e) change_log) current_sp500"

text \<open>Re-applying an event going forward in time: an ADD inserts, a REMOVE deletes.\<close>

fun redo :: "event \<Rightarrow> string set \<Rightarrow> string set" where
  "redo (_, ticker, action, _) members =
     (if action = ''ADD'' then insert ticker members
      else if action = ''REMOVE'' then members - {ticker}
      else members)"

text \<open>
  An undo meets the working set in the state its event implies: the ticker of an ADD is
  present, the ticker of a REMOVE is absent.
\<close>

fun undo_fits :: "event \<Rightarrow> string set \<Rightarrow> bool" where
  "undo_fits (_, ticker, action, _) members =
     (if action = ''ADD'' then ticker \<in> members
      else if action = ''REMOVE'' then ticker \<notin> members
      else True)"

fun consistent :: "string set \<Rightarrow> event list \<Rightarrow> bool" where
  "consistent members [] = True"
| "consistent members (e # es) = (undo_fits e members \<and> consistent (undo e members) es)"

text \<open>The events of a log with an effective date strictly after \<open>d\<close>, in the order of the log.\<close>

definition events_after :: "datetime \<Rightarrow> event list \<Rightarrow> event list" where
  "events_after d change_log = filter (\<lambda>e. d < fst e) change_log"

text \<open>Two runs that differ in the order in which their hash sets yield the members.\<close>

definition ascending_walk :: "datetime \<Rightarrow> string set \<Rightarrow> string list" where
  "ascending_walk d S = sorted_list_of_set S"

definition descending_walk :: "datetime \<Rightarrow> string set \<Rightarrow> string list" where
  "descending_walk d S = rev (sorted_list_of_set S)"

text \<open>
  The scenario of the specification: current membership A, B, C and the single change
  "D added on 2023-06-01" (day 19509); 2023-05-01 is day 19478 and 2023-07-01 is day 19539.
\<close>

definition scenario_current :: "(string \<times> string) list" where
  "scenario_current = [(''A'', ''Alpha''), (''B'', ''Beta''), (''C'', ''Gamma'')]"

definition scenario_changes :: "change_row list" where
  "scenario_changes =
     [\<lparr> date = Some 19509, added_tickers = Some ''D'', added_names = Some ''Delta'',
        removed_tickers = None, removed_names = None, row_notes = None \<rparr>]"

text \<open>The date of the last pass of the outer loop that starts at \<open>d\<close>.\<close>

definition last_date :: "datetime \<Rightarrow> datetime \<Rightarrow> datetime" where
  "last_date start_date d = d - 7 * int (weeks start_date d - 1)"

text \<open>The comma-separated items of a cell; a cell that is not a string has none.\<close>

definition cell_items :: "string option \<Rightarrow> string list" where
  "cell_items cell = (case cell of None \<Rightarrow> [] | Some s \<Rightarrow> str_split CHR '','' s)"

text \<open>A row with three added tickers and two added names.\<close>

definition mismatched_row :: change_row where
  "mismatched_row =
     \<lparr> date = Some 7, added_tickers = Some ''a, b ,c'', added_names = Some ''Alpha, Beta'',
       removed_tickers = None, removed_names = None, row_notes = None \<rparr>"

section \<open>The selection step of \<^verbatim>\<open>sentiment_scraper.py\<close>\<close>

text \<open>\<^verbatim>\<open>Config.TOP_N_WEEKLY\<close>\<close>

definition TOP_N_WEEKLY :: nat where
  "TOP_N_WEEKLY = 5"

text \<open>
  Modelled from the spec: the source file ends inside \<^verbatim>\<open>initialize_reddit_client\<close>, and
  the code that tallies the mentions of a week and selects the top tickers is missing.
  Section 4.2, step 4: "Sort resulting (ticker, count) pairs descending by count,
  ascending by ticker symbol as tie-break, and take the first TOP_N_WEEKLY." The tally
  is the list of \<open>(ticker, mention_count)\<close> pairs of one week, the counts being
  non-negative integers.
\<close>

definition selection_key :: "string \<times> nat \<Rightarrow> int \<times> string" where
  "selection_key tc = (- int (snd tc), fst tc)"

definition top_selection :: "nat \<Rightarrow> (string \<times> nat) list \<Rightarrow> (string \<times> nat) list" where
  "top_selection top_n tally = take top_n (sort_key selection_key tally)"

text \<open>One pair ranks before another: a larger count, or the same count and a ticker not after.\<close>

definition ranks_before :: "string \<times> nat \<Rightarrow> string \<times> nat \<Rightarrow> bool" where
  "ranks_before a b = (snd b < snd a \<or> (snd a = snd b \<and> fst a \<le> fst b))"

section \<open>\<^verbatim>\<open>calculate_metrics\<close> of \<^verbatim>\<open>strategy_backtester.py\<close>\<close>

text \<open>
  A \<^verbatim>\<open>Series\<close> of floats is a list. The arithmetic of numpy floats and the aggregations
  of pandas are parameters of the model: none of them raises (a division by zero or a
  power of a negative number yields inf or nan with a warning), and what they compute is
  not at issue here. The series holds no NaN (the caller passes columns of a frame after
  \<^verbatim>\<open>dropna()\<close>), so the cumulative operations are plain scans.
\<close>

record 'f float_ops =
  f_of_real :: "real \<Rightarrow> 'f"
  f_add :: "'f \<Rightarrow> 'f \<Rightarrow> 'f"
  f_sub :: "'f \<Rightarrow> 'f \<Rightarrow> 'f"
  f_mul :: "'f \<Rightarrow> 'f \<Rightarrow> 'f"
  f_div :: "'f \<Rightarrow> 'f \<Rightarrow> 'f"
  f_pow :: "'f \<Rightarrow> 'f \<Rightarrow> 'f"
  f_max :: "'f \<Rightarrow> 'f \<Rightarrow> 'f"
  f_sqrt :: "'f \<Rightarrow> 'f"
  s_mean :: "'f list \<Rightarrow> 'f"
  s_std :: "'f list \<Rightarrow> 'f"
  s_min :: "'f list \<Rightarrow> 'f"

record 'f metrics =
  mean_weekly_return :: 'f
  weekly_volatility :: 'f
  cumulative_return :: "'f list"
  cagr :: 'f
  sharpe_ratio :: 'f
  max_drawdown :: 'f

text \<open>\<^verbatim>\<open>cumprod\<close> and \<^verbatim>\<open>cummax\<close>: the running results of a binary operation.\<close>

fun scan_from :: "('a \<Rightarrow> 'a \<Rightarrow> 'a) \<Rightarrow> 'a \<Rightarrow> 'a list \<Rightarrow> 'a list" where
  "scan_from f acc [] = []"
| "scan_from f acc (x # xs) = f acc x # scan_from f (f acc x) xs"

fun scan :: "('a \<Rightarrow> 'a \<Rightarrow> 'a) \<Rightarrow> 'a list \<Rightarrow> 'a list" where
  "scan f [] = []"
| "scan f (x # xs) = x # scan_from f x xs"

text \<open>\<^verbatim>\<open>series.iloc[-1]\<close>: the last element; an IndexError on an empty series.\<close>

definition iloc_last :: "'a list \<Rightarrow> py_error + 'a" where
  "iloc_last xs = (case xs of [] \<Rightarrow> Inl IndexError | _ # _ \<Rightarrow> Inr (last xs))"

text \<open>Division of Python floats: a ZeroDivisionError when the divisor is zero.\<close>

definition py_truediv :: "real \<Rightarrow> real \<Rightarrow> py_error + real" where
  "py_truediv a b = (if b = 0 then Inl ZeroDivisionError else Inr (a / b))"

text \<open>\<^verbatim>\<open>years = len(returns_df) / weeks_per_year\<close>\<close>

definition years :: "'f list \<Rightarrow> real" where
  "years returns_df = real (length returns_df) / 52"

definition calculate_metrics ::
  "'f float_ops \<Rightarrow> 'f list \<Rightarrow> real \<Rightarrow> py_error + 'f metrics" where
  "calculate_metrics np returns_df risk_free_rate =
     (let weeks_per_year = 52;
          mean_return = s_mean np returns_df;
          volatility = s_std np returns_df;
          cumulative_returns = scan (f_mul np) (map (f_add np (f_of_real np 1)) returns_df)
      in case iloc_last cumulative_returns of
           Inl e \<Rightarrow> Inl e
         | Inr total_return \<Rightarrow>
             (case py_truediv 1 (years returns_df) of
                Inl e \<Rightarrow> Inl e
              | Inr exponent \<Rightarrow>
                  (let sharpe = f_div np
                         (f_sub np mean_return (f_of_real np (risk_free_rate / weeks_per_year)))
                         volatility;
                       rolling_max = scan (f_max np) cumulative_returns;
                       drawdown = map2 (\<lambda>c m. f_div np (f_sub np c m) m)
                                    cumulative_returns rolling_max
                   in Inr \<lparr> mean_weekly_return = mean_return,
                            weekly_volatility = volatility,
                            cumulative_return = cumulative_returns,
                            cagr = f_sub np (f_pow np total_return (f_of_real np exponent))
                                     (f_of_real np 1),
                            sharpe_ratio = f_mul np sharpe (f_sqrt np (f_of_real np weeks_per_year)),
                            max_drawdown = s_min np drawdown \<rparr>)))"

text \<open>Exact real arithmetic, as an instance of the operations.\<close>

definition real_ops :: "real float_ops" where
  "real_ops =
     \<lparr> f_of_real = id, f_add = (+), f_sub = (-), f_mul = (*), f_div = (/), f_pow = (powr),
       f_max = max, f_sqrt = sqrt,
       s_mean = (\<lambda>xs. sum_list xs / real (length xs)),
       s_std = (\<lambda>xs. sqrt (sum_list (map (\<lambda>x. (x - sum_list xs / real (length xs))\<^sup>2) xs)
                          / real (length xs - 1))),
       s_min = (\<lambda>xs. Min (set xs)) \<rparr>"

section \<open>Properties of the change log\<close>

subsection \<open>Sorting\<close>

lemma set_insort_desc: "set (insort_desc x xs) = insert x (set xs)"
  by (induction xs) auto

lemma mset_insort_desc: "mset (insort_desc x xs) = add_mset x (mset xs)"
  by (induction xs) auto

lemma sorted_insort_desc:
  "sorted_wrt (\<lambda>a b. b \<le> a) xs \<Longrightarrow> sorted_wrt (\<lambda>a b. b \<le> a) (insort_desc x xs)"
  by (induction xs) (auto simp: set_insort_desc)

lemma mset_sort_reverse: "mset (sort_reverse xs) = mset xs"
  unfolding sort_reverse_def by (induction xs) (auto simp: mset_insort_desc)

lemma sorted_sort_reverse: "sorted_wrt (\<lambda>a b. b \<le> a) (sort_reverse xs)"
  unfolding sort_reverse_def by (induction xs) (auto simp: sorted_insort_desc)

lemma rev_sort_reverse: "rev (sort_reverse xs) = sort xs"
proof -
  have "sorted (rev (sort_reverse xs))"
    using sorted_sort_reverse[of xs] by (simp add: sorted_wrt_rev)
  moreover have "mset (rev (sort_reverse xs)) = mset xs"
    by (simp add: mset_sort_reverse)
  ultimately show ?thesis
    by (metis properties_for_sort)
qed

lemma sort_reverse_eq: "sort_reverse xs = rev (sort xs)"
  by (metis rev_rev_ident rev_sort_reverse)

lemma sort_mset_cong: "mset xs = mset ys \<Longrightarrow> sort xs = sort ys"
  by (metis mset_sort properties_for_sort sorted_sort)

lemma dates_sort_reverse:
  "sorted_wrt (\<lambda>a b. fst b \<le> fst a) (sort_reverse (xs :: event list))"
  by (rule sorted_wrt_mono_rel[OF _ sorted_sort_reverse]) (auto simp: less_eq_prod_def)

text \<open>
  C4 (event ordering), as amended. The sorted change log is in descending order of the
  whole tuple \<open>(date, ticker, action, name)\<close>, hence of the effective date, and holds the
  same events as the parsed log. Events that share an effective date come in descending
  order of \<open>(ticker, action, name)\<close>; the order of the input has no influence at all: any
  two logs with the same events are sorted into the same list.
\<close>

theorem change_log_order:
  fixes evs :: "event list"
  shows "sorted_wrt (\<lambda>a b. b \<le> a) (sort_reverse evs)
       \<and> sorted_wrt (\<lambda>a b. fst b \<le> fst a) (sort_reverse evs)
       \<and> mset (sort_reverse evs) = mset evs
       \<and> (mset evs' = mset evs \<longrightarrow> sort_reverse evs' = sort_reverse evs)"
  using sorted_sort_reverse[of evs] dates_sort_reverse[of evs] mset_sort_reverse[of evs]
    sort_mset_cong[of evs' evs]
  by (simp add: sort_reverse_eq)

theorem change_log_order_witness:
  "mset [(1, ''B'', ''ADD'', ''Beta''), (1::int, ''A'', ''ADD'', ''Alpha'')]
     = mset [(1, ''A'', ''ADD'', ''Alpha''), (1, ''B'', ''ADD'', ''Beta'')]
   \<and> sort_reverse [(1, ''B'', ''ADD'', ''Beta''), (1::int, ''A'', ''ADD'', ''Alpha'')]
     = sort_reverse [(1, ''A'', ''ADD'', ''Alpha''), (1, ''B'', ''ADD'', ''Beta'')]"
proof -
  have m: "mset [(1, ''B'', ''ADD'', ''Beta''), (1::int, ''A'', ''ADD'', ''Alpha'')]
     = mset [(1, ''A'', ''ADD'', ''Alpha''), (1, ''B'', ''ADD'', ''Beta'')]"
    by simp
  show ?thesis
    using change_log_order[of "[(1, ''A'', ''ADD'', ''Alpha''), (1, ''B'', ''ADD'', ''Beta'')]"
            "[(1, ''B'', ''ADD'', ''Beta''), (1, ''A'', ''ADD'', ''Alpha'')]"] m
    by simp
qed

text \<open>
  C4 as stated fails: the rows "A added on day 1" and "B added on day 1", in this order,
  are parsed in this order and sorted into the opposite one.
\<close>

theorem change_log_order_counterexample:
  "map_sum id fst
     (parse_changes
        [\<lparr> date = Some 1, added_tickers = Some ''A'', added_names = Some ''Alpha'',
           removed_tickers = None, removed_names = None, row_notes = None \<rparr>,
         \<lparr> date = Some 1, added_tickers = Some ''B'', added_names = Some ''Beta'',
           removed_tickers = None, removed_names = None, row_notes = None \<rparr>]
        ([], Map.empty))
     = Inr [(1, ''A'', ''ADD'', ''Alpha''), (1, ''B'', ''ADD'', ''Beta'')]
   \<and> sort_reverse [(1::int, ''A'', ''ADD'', ''Alpha''), (1, ''B'', ''ADD'', ''Beta'')]
     = [(1, ''B'', ''ADD'', ''Beta''), (1, ''A'', ''ADD'', ''Alpha'')]"
  by code_simp

subsection \<open>Parsing\<close>

lemma fold_record_event:
  "fold (record_event d a) ps (cl, m) =
     (cl @ map (\<lambda>p. (d, fst p, a, snd p)) ps, fold (\<lambda>p m. m(fst p \<mapsto> snd p)) ps m)"
  by (induction ps arbitrary: cl m) (auto simp: record_event_def)

lemma fold_event_names:
  "fold (\<lambda>e m. m(fst (snd e) \<mapsto> snd (snd (snd e)))) (map (\<lambda>p. (d, fst p, a, snd p)) ps) m =
   fold (\<lambda>p m. m(fst p \<mapsto> snd p)) ps m"
  by (simp add: fold_map o_def)

lemma record_side_events:
  assumes "tc \<noteq> None \<longrightarrow> nc \<noteq> None"
  shows "record_side a d tc nc (cl, m) =
     Inr (fold (record_event d a)
            (zip (map (\<lambda>t. str_upper (str_strip t)) (cell_items tc))
                 (map str_strip (cell_items nc)))
            (cl, m))"
proof (cases tc)
  case None
  then show ?thesis by (simp add: record_side_def cell_items_def)
next
  case (Some ts)
  with assms obtain ns where ns: "nc = Some ns" by auto
  show ?thesis
    unfolding Some ns record_side_def cell_items_def by simp
qed

text \<open>
  C7 (mismatched list lengths). A row with a parsed date whose names cell is a string
  wherever its tickers cell is one is parsed without an error. Each side contributes as
  many events as the shorter of its two comma-split lists has items: the events pair the
  first tickers with the first names, position by position, so a ticker or name at a later
  position of the longer list is in no event, and the name mapping is updated from these
  events only.
\<close>

theorem mismatched_lengths_truncate:
  assumes "date row = Some d"
    and "added_tickers row \<noteq> None \<longrightarrow> added_names row \<noteq> None"
    and "removed_tickers row \<noteq> None \<longrightarrow> removed_names row \<noteq> None"
  shows "\<exists>adds rems.
      parse_row row (cl, m) =
        Inr (cl @ adds @ rems,
             fold (\<lambda>e m. m(fst (snd e) \<mapsto> snd (snd (snd e)))) (adds @ rems) m)
    \<and> length adds =
        min (length (cell_items (added_tickers row))) (length (cell_items (added_names row)))
    \<and> length rems =
        min (length (cell_items (removed_tickers row))) (length (cell_items (removed_names row)))
    \<and> map (\<lambda>e. fst (snd e)) adds =
        take (length adds) (map (\<lambda>t. str_upper (str_strip t)) (cell_items (added_tickers row)))
    \<and> map (\<lambda>e. fst (snd e)) rems =
        take (length rems) (map (\<lambda>t. str_upper (str_strip t)) (cell_items (removed_tickers row)))
    \<and> map (\<lambda>e. snd (snd (snd e))) adds =
        take (length adds) (map str_strip (cell_items (added_names row)))
    \<and> map (\<lambda>e. snd (snd (snd e))) rems =
        take (length rems) (map str_strip (cell_items (removed_names row)))
    \<and> (\<forall>e\<in>set adds. fst e = d \<and> fst (snd (snd e)) = ''ADD'')
    \<and> (\<forall>e\<in>set rems. fst e = d \<and> fst (snd (snd e)) = ''REMOVE'')"
proof -
  define mk where "mk = (\<lambda>a tc nc. map (\<lambda>p. (d, fst p, a :: string, snd p))
       (zip (map (\<lambda>t. str_upper (str_strip t)) (cell_items tc)) (map str_strip (cell_items nc))))"
  have side: "tc \<noteq> None \<longrightarrow> nc \<noteq> None \<Longrightarrow>
      record_side a d tc nc (cl', m') =
        Inr (cl' @ mk a tc nc, fold (\<lambda>e m. m(fst (snd e) \<mapsto> snd (snd (snd e)))) (mk a tc nc) m')"
    for a tc nc cl' m'
    unfolding mk_def by (simp only: record_side_events fold_record_event fold_event_names)
  have len: "length (mk a tc nc) = min (length (cell_items tc)) (length (cell_items nc))" for a tc nc
    by (simp add: mk_def)
  have tk: "map (\<lambda>e. fst (snd e)) (mk a tc nc) =
      take (length (mk a tc nc)) (map (\<lambda>t. str_upper (str_strip t)) (cell_items tc))" for a tc nc
  proof -
    have "map (\<lambda>e. fst (snd e)) (mk a tc nc) =
          map fst (zip (map (\<lambda>t. str_upper (str_strip t)) (cell_items tc))
                       (map str_strip (cell_items nc)))"
      by (simp add: mk_def o_def)
    then show ?thesis
      unfolding len by (simp only: map_fst_zip_take length_map)
  qed
  have nm: "map (\<lambda>e. snd (snd (snd e))) (mk a tc nc) =
      take (length (mk a tc nc)) (map str_strip (cell_items nc))" for a tc nc
  proof -
    have "map (\<lambda>e. snd (snd (snd e))) (mk a tc nc) =
          map snd (zip (map (\<lambda>t. str_upper (str_strip t)) (cell_items tc))
                       (map str_strip (cell_items nc)))"
      by (simp add: mk_def o_def)
    then show ?thesis
      unfolding len by (simp only: map_snd_zip_take length_map)
  qed
  have ac: "\<forall>e\<in>set (mk a tc nc). fst e = d \<and> fst (snd (snd e)) = a" for a tc nc
    by (auto simp: mk_def)
  have run: "parse_row row (cl, m) =
      Inr (cl @ mk ''ADD'' (added_tickers row) (added_names row)
              @ mk ''REMOVE'' (removed_tickers row) (removed_names row),
           fold (\<lambda>e m. m(fst (snd e) \<mapsto> snd (snd (snd e))))
             (mk ''ADD'' (added_tickers row) (added_names row)
                @ mk ''REMOVE'' (removed_tickers row) (removed_names row)) m)"
    unfolding parse_row_def by (simp add: assms side)
  show ?thesis
    apply (rule exI[where x = "mk ''ADD'' (added_tickers row) (added_names row)"])
    apply (rule exI[where x = "mk ''REMOVE'' (removed_tickers row) (removed_names row)"])
    apply (intro conjI)
            apply (rule run)
           apply (rule len)
          apply (rule len)
         apply (rule tk)
        apply (rule tk)
       apply (rule nm)
      apply (rule nm)
     apply (rule ac)
    apply (rule ac)
    done
qed

theorem mismatched_lengths_witness:
  "date mismatched_row = Some 7
   \<and> cell_items (added_tickers mismatched_row) = [''a'', '' b '', ''c'']
   \<and> cell_items (added_names mismatched_row) = [''Alpha'', '' Beta'']
   \<and> removed_tickers mismatched_row = None
   \<and> map_sum id fst (parse_row mismatched_row ([], Map.empty)) =
       Inr [(7, ''A'', ''ADD'', ''Alpha''), (7, ''B'', ''ADD'', ''Beta'')]"
proof -
  have h1: "date mismatched_row = Some 7"
    by (simp add: mismatched_row_def)
  have h2: "added_tickers mismatched_row \<noteq> None \<longrightarrow> added_names mismatched_row \<noteq> None"
    by (simp add: mismatched_row_def)
  have h3: "removed_tickers mismatched_row \<noteq> None \<longrightarrow> removed_names mismatched_row \<noteq> None"
    by (simp add: mismatched_row_def)
  have ev: "cell_items (added_tickers mismatched_row) = [''a'', '' b '', ''c'']
   \<and> cell_items (added_names mismatched_row) = [''Alpha'', '' Beta'']
   \<and> removed_tickers mismatched_row = None
   \<and> map_sum id fst (parse_row mismatched_row ([], Map.empty)) =
       Inr [(7, ''A'', ''ADD'', ''Alpha''), (7, ''B'', ''ADD'', ''Beta'')]"
    by code_simp
  show ?thesis
    using mismatched_lengths_truncate[OF h1 h2 h3, of "[]" Map.empty] h1 ev
    by blast
qed

section \<open>The backward replay in closed form\<close>

lemma undo_newer_eq:
  "undo_newer d evs S =
     (dropWhile (\<lambda>e. d < fst e) evs, fold undo (takeWhile (\<lambda>e. d < fst e) evs) S)"
  by (induction evs arbitrary: S) auto

lemma takeWhile_weaker_split:
  assumes "\<And>x. P x \<Longrightarrow> Q x"
  shows "takeWhile Q xs = takeWhile P xs @ takeWhile Q (dropWhile P xs)"
  using assms by (induction xs) auto

lemma dropWhile_weaker:
  assumes "\<And>x. P x \<Longrightarrow> Q x"
  shows "dropWhile Q (dropWhile P xs) = dropWhile Q xs"
  using assms by (induction xs) auto

lemma weeks_step: "start \<le> d \<Longrightarrow> weeks start d = Suc (weeks start (d - 7))"
  unfolding weeks_def by (auto simp: nat_add_distrib)

lemma members_at_step:
  assumes "d' \<le> d"
  shows "members_at (dropWhile (\<lambda>e. d < fst e) evs) (members_at evs S d) d' = members_at evs S d'"
proof -
  have "takeWhile (\<lambda>e. d' < fst e) evs =
        takeWhile (\<lambda>e. d < fst e) evs @ takeWhile (\<lambda>e. d' < fst e) (dropWhile (\<lambda>e. d < fst e) evs)"
    using assms by (intro takeWhile_weaker_split) auto
  then show ?thesis by (simp add: members_at_def)
qed

lemma weekly_loop_snapshots:
  "snd (snd (weekly_loop walk m start d (evs, S, snaps))) =
     snaps @ map (\<lambda>k. make_snapshot m (d - 7 * int k) (walk (d - 7 * int k) (members_at evs S (d - 7 * int k))))
               [0..<weeks start d]"
proof (induction walk m start d "(evs, S, snaps)" arbitrary: evs S snaps rule: weekly_loop.induct)
  case (1 walk m start d)
  show ?case
  proof (cases "start \<le> d")
    case False
    then show ?thesis by (simp add: weekly_loop.simps weeks_def)
  next
    case True
    let ?P = "\<lambda>e. d < fst e"
    have un: "undo_newer d evs S = (dropWhile ?P evs, members_at evs S d)"
      by (simp add: undo_newer_eq members_at_def)
    have step: "weekly_loop walk m start d (evs, S, snaps) =
        weekly_loop walk m start (d - 7)
          (dropWhile ?P evs, members_at evs S d,
           snaps @ [make_snapshot m d (walk d (members_at evs S d))])"
      using True by (subst weekly_loop.simps) (simp add: un)
    have ih: "snd (snd (weekly_loop walk m start (d - 7)
          (dropWhile ?P evs, members_at evs S d,
           snaps @ [make_snapshot m d (walk d (members_at evs S d))]))) =
        (snaps @ [make_snapshot m d (walk d (members_at evs S d))]) @
          map (\<lambda>k. make_snapshot m (d - 7 - 7 * int k)
                 (walk (d - 7 - 7 * int k)
                    (members_at (dropWhile ?P evs) (members_at evs S d) (d - 7 - 7 * int k))))
            [0..<weeks start (d - 7)]"
      using "1.hyps"[OF refl refl True un[symmetric]] .
    have m: "members_at (dropWhile ?P evs) (members_at evs S d) (d - 7 - 7 * int k) =
             members_at evs S (d - 7 * int (Suc k))" for k
      by (subst members_at_step) (auto simp: algebra_simps)
    have "[0..<weeks start d] = 0 # map Suc [0..<weeks start (d - 7)]"
      using weeks_step[OF True] by (simp add: upt_conv_Cons map_Suc_upt del: upt_Suc)
    then show ?thesis
      unfolding step ih by (simp add: members_at_step o_def algebra_simps)
  qed
qed

lemma weekly_snapshots_eq:
  "weekly_snapshots walk m start e evs S =
     map (\<lambda>k. make_snapshot m (e - 7 * int k)
            (walk (e - 7 * int k) (members_at evs S (e - 7 * int k))))
       [0..<weeks start e]"
  unfolding weekly_snapshots_def
  by (subst weekly_loop_snapshots) (rule append_Nil)

lemma in_weekly_snapshots:
  assumes "s \<in> set (weekly_snapshots walk m start e evs S)"
  shows "s = make_snapshot m (week_start s)
               (walk (week_start s) (members_at evs S (week_start s)))"
  using assms by (auto simp: weekly_snapshots_eq make_snapshot_def)

lemma last_date_step:
  assumes "start \<le> d"
  shows "last_date start d = (if start \<le> d - 7 then last_date start (d - 7) else d)"
proof (cases "start \<le> d - 7")
  case True
  then have "weeks start (d - 7) \<ge> 1" by (simp add: weeks_def)
  with weeks_step[OF assms] True show ?thesis
    by (simp add: last_date_def algebra_simps of_nat_diff)
next
  case False
  then have "weeks start (d - 7) = 0" by (simp add: weeks_def)
  with weeks_step[OF assms] False show ?thesis
    by (simp add: last_date_def)
qed

lemma last_date_le: "start \<le> d \<Longrightarrow> last_date start d \<le> d"
  by (simp add: last_date_def)

lemma start_le_last_date: "start \<le> e \<Longrightarrow> start \<le> last_date start e"
proof -
  assume a: "start \<le> e"
  have "7 * ((e - start) div 7) \<le> e - start" by presburger
  moreover have "int (weeks start e - 1) = (e - start) div 7"
    using a by (simp add: weeks_def pos_imp_zdiv_nonneg_iff)
  ultimately show ?thesis by (simp add: last_date_def)
qed

lemma weekly_loop_state:
  "weekly_loop walk m start d (evs, S, snaps) = (evs', S', snaps') \<Longrightarrow>
     evs' = (if start \<le> d then dropWhile (\<lambda>e. last_date start d < fst e) evs else evs) \<and>
     S' = (if start \<le> d then members_at evs S (last_date start d) else S)"
proof (induction walk m start d "(evs, S, snaps)" arbitrary: evs S snaps rule: weekly_loop.induct)
  case (1 walk m start d)
  show ?case
  proof (cases "start \<le> d")
    case False
    with "1.prems" show ?thesis by (simp add: weekly_loop.simps)
  next
    case True
    let ?P = "\<lambda>e. d < fst e"
    have un: "undo_newer d evs S = (dropWhile ?P evs, members_at evs S d)"
      by (simp add: undo_newer_eq members_at_def)
    have step: "weekly_loop walk m start d (evs, S, snaps) =
        weekly_loop walk m start (d - 7)
          (dropWhile ?P evs, members_at evs S d,
           snaps @ [make_snapshot m d (walk d (members_at evs S d))])"
      using True by (subst weekly_loop.simps) (simp add: un)
    from "1.hyps"[OF refl refl True un[symmetric]] "1.prems"
    have ih: "evs' = (if start \<le> d - 7
                     then dropWhile (\<lambda>e. last_date start (d - 7) < fst e) (dropWhile ?P evs)
                     else dropWhile ?P evs)"
      "S' = (if start \<le> d - 7
             then members_at (dropWhile ?P evs) (members_at evs S d) (last_date start (d - 7))
             else members_at evs S d)"
      unfolding step by simp_all
    show ?thesis
    proof (cases "start \<le> d - 7")
      case False
      with ih True show ?thesis by (simp add: last_date_step[OF True])
    next
      case le: True
      have l: "last_date start (d - 7) \<le> d"
        using last_date_le[OF le] by simp
      have "dropWhile (\<lambda>e. last_date start (d - 7) < fst e) (dropWhile ?P evs) =
            dropWhile (\<lambda>e. last_date start (d - 7) < fst e) evs"
        using l by (intro dropWhile_weaker) auto
      with ih le True l show ?thesis
        by (simp add: last_date_step[OF True] members_at_step)
    qed
  qed
qed

lemma last_weekly_snapshots:
  assumes "start \<le> e"
  shows "weekly_snapshots walk m start e evs S \<noteq> []"
    and "week_start (last (weekly_snapshots walk m start e evs S)) = last_date start e"
proof -
  have w: "weeks start e = Suc (weeks start e - 1)"
    using assms by (simp add: weeks_def)
  show "weekly_snapshots walk m start e evs S \<noteq> []"
    unfolding weekly_snapshots_eq by (subst w) simp
  show "week_start (last (weekly_snapshots walk m start e evs S)) = last_date start e"
    unfolding weekly_snapshots_eq by (subst w) (simp add: make_snapshot_def last_date_def)
qed

subsection \<open>Working sets and walks\<close>

lemma finite_undo: "finite S \<Longrightarrow> finite (undo e S)"
  by (induction e S rule: undo.induct) simp

lemma finite_fold_undo: "finite S \<Longrightarrow> finite (fold undo es S)"
  by (induction es arbitrary: S) (simp_all add: finite_undo)

lemma finite_members_at: "finite S \<Longrightarrow> finite (members_at evs S d)"
  by (simp add: members_at_def finite_fold_undo)

lemma py_sorted_walk:
  assumes "enumerates walk" "finite S"
  shows "py_sorted (walk d S) = sorted_list_of_set S"
proof -
  have "set (walk d S) = S" "distinct (walk d S)"
    using assms by (auto simp: enumerates_def)
  then show ?thesis
    unfolding py_sorted_def
    by (metis distinct_remdups_id sorted_list_of_set_sort_remdups)
qed

lemma snapshot_members:
  assumes "enumerates walk" "finite S"
    and "s \<in> set (weekly_snapshots walk m start e evs S)"
  shows "tickers s = sorted_list_of_set (members_at evs S (week_start s))"
proof -
  have "tickers s = py_sorted (walk (week_start s) (members_at evs S (week_start s)))"
    by (subst in_weekly_snapshots[OF assms(3)]) (simp add: make_snapshot_def)
  then show ?thesis
    using assms(1,2) by (simp add: py_sorted_walk finite_members_at)
qed

lemma enumerates_ascending: "enumerates ascending_walk"
  by (simp add: enumerates_def ascending_walk_def)

lemma enumerates_descending: "enumerates descending_walk"
  by (simp add: enumerates_def descending_walk_def)

lemma weekly_snapshots_walk:
  assumes "enumerates walk" "finite S"
  shows "weekly_snapshots walk m start e evs S = weekly_snapshots ascending_walk m start e evs S"
  unfolding weekly_snapshots_eq make_snapshot_def
  by (simp add: py_sorted_walk[OF assms(1)] py_sorted_walk[OF enumerates_ascending]
        finite_members_at[OF assms(2)])

lemma build_history_walk:
  assumes "enumerates walk"
  shows "build_history walk ct rows start e = build_history ascending_walk ct rows start e"
  unfolding build_history_def Let_def
  by (simp add: weekly_snapshots_walk[OF assms] split: sum.splits prod.splits)

subsection \<open>Undoing and re-applying events\<close>

lemma takeWhile_newer_filter:
  assumes "sorted_wrt (\<lambda>a b. fst b \<le> fst a) (xs :: event list)"
  shows "takeWhile (\<lambda>e. d < fst e) xs = filter (\<lambda>e. d < fst e) xs"
  using assms
proof (induction xs)
  case Nil
  then show ?case by simp
next
  case (Cons x xs)
  show ?case
  proof (cases "d < fst x")
    case True
    with Cons show ?thesis by simp
  next
    case False
    with Cons.prems have "\<forall>y\<in>set xs. \<not> d < fst y" by auto
    then have "filter (\<lambda>e. d < fst e) xs = []" by (simp add: filter_empty_conv)
    with False show ?thesis by simp
  qed
qed

lemma members_at_sorted:
  "members_at (sort_reverse evs) S d = fold undo (filter (\<lambda>e. d < fst e) (sort_reverse evs)) S"
  by (simp add: members_at_def takeWhile_newer_filter[OF dates_sort_reverse])

lemma members_at_events_after:
  "members_at (sort_reverse evs) S d = fold undo (events_after d (sort_reverse evs)) S"
  by (simp add: members_at_sorted events_after_def)

lemma filter_sort_rev:
  "events_after d (sort evs) = rev (events_after d (sort_reverse evs))"
  by (simp add: events_after_def rev_sort_reverse[symmetric] rev_filter)

lemma redo_undo: "undo_fits e S \<Longrightarrow> redo e (undo e S) = S"
  by (induction e S rule: undo.induct) (auto split: if_splits)

lemma replay_round_trip: "consistent S es \<Longrightarrow> fold redo (rev es) (fold undo es S) = S"
  by (induction es arbitrary: S) (simp_all add: redo_undo)

lemma length_takeWhile_filter: "length (takeWhile P xs) \<le> length (filter P xs)"
  by (induction xs) auto

lemma length_filter_mono:
  "(\<And>x. P x \<Longrightarrow> Q x) \<Longrightarrow> length (filter P xs) \<le> length (filter Q xs)"
  by (induction xs) auto

section \<open>Properties of the membership timeline\<close>

lemma week_dates_set:
  assumes "start \<le> (e::int)"
  shows "(\<lambda>k. e - 7 * int k) ` {0..<nat ((e - start) div 7 + 1)} =
         {d. start \<le> d \<and> d \<le> e \<and> (e - d) mod 7 = 0}"
proof (intro set_eqI iffI)
  fix d
  assume "d \<in> (\<lambda>k. e - 7 * int k) ` {0..<nat ((e - start) div 7 + 1)}"
  then obtain k where k: "d = e - 7 * int k" "k < nat ((e - start) div 7 + 1)"
    by auto
  from k(2) assms have "int k \<le> (e - start) div 7" by linarith
  then have "7 * int k \<le> e - start" by presburger
  with k(1) show "d \<in> {d. start \<le> d \<and> d \<le> e \<and> (e - d) mod 7 = 0}"
    by simp
next
  fix d
  assume "d \<in> {d. start \<le> d \<and> d \<le> e \<and> (e - d) mod 7 = 0}"
  then have d: "start \<le> d" "d \<le> e" "(e - d) mod 7 = 0" by auto
  define k where "k = nat ((e - d) div 7)"
  have "0 \<le> (e - d) div 7" using d by (simp add: pos_imp_zdiv_nonneg_iff)
  then have "int k = (e - d) div 7" unfolding k_def by simp
  moreover have "7 * ((e - d) div 7) = e - d" using d(3) by presburger
  ultimately have "7 * int k = e - d" by simp
  moreover have "k < nat ((e - start) div 7 + 1)"
    using d unfolding k_def by (simp add: nat_less_iff zdiv_mono1)
  ultimately show "d \<in> (\<lambda>k. e - 7 * int k) ` {0..<nat ((e - start) div 7 + 1)}"
    by (intro image_eqI[where x = k]) auto
qed

text \<open>
  C5 (timeline coverage). For \<open>start_date \<le> end_date\<close> the snapshot dates are, in this
  order, \<open>end_date\<close>, \<open>end_date - 7\<close>, \<open>end_date - 14\<close> and so on, as long as they are
  not before \<open>start_date\<close>: one snapshot for every date of the range that lies a whole
  number of weeks before \<open>end_date\<close>, so that \<open>start_date\<close> has a snapshot exactly when
  \<open>end_date - start_date\<close> is a multiple of 7.
\<close>

theorem timeline_coverage:
  assumes "start_date \<le> end_date"
  shows "map week_start (weekly_snapshots walk m start_date end_date evs S) =
           map (\<lambda>k. end_date - 7 * int k) [0..<nat ((end_date - start_date) div 7 + 1)]
       \<and> set (map week_start (weekly_snapshots walk m start_date end_date evs S)) =
           {d. start_date \<le> d \<and> d \<le> end_date \<and> (end_date - d) mod 7 = 0}
       \<and> (start_date \<in> set (map week_start (weekly_snapshots walk m start_date end_date evs S))
            \<longleftrightarrow> (end_date - start_date) mod 7 = 0)"
proof -
  have w: "weeks start_date end_date = nat ((end_date - start_date) div 7 + 1)"
    using assms by (simp add: weeks_def)
  have ds: "map week_start (weekly_snapshots walk m start_date end_date evs S) =
           map (\<lambda>k. end_date - 7 * int k) [0..<nat ((end_date - start_date) div 7 + 1)]"
    by (simp add: weekly_snapshots_eq w make_snapshot_def o_def)
  have st: "set (map week_start (weekly_snapshots walk m start_date end_date evs S)) =
           {d. start_date \<le> d \<and> d \<le> end_date \<and> (end_date - d) mod 7 = 0}"
    unfolding ds using week_dates_set[OF assms] by simp
  show ?thesis
    using assms by (simp only: st) (simp add: ds)
qed

theorem timeline_coverage_witness:
  "(0::int) \<le> 15 \<and>
   map week_start (weekly_snapshots (\<lambda>d. sorted_list_of_set) Map.empty 0 15 [] {''A''}) = [15, 8, 1]"
  using timeline_coverage[of 0 15 "\<lambda>d. sorted_list_of_set" Map.empty "[]" "{''A''}"]
  by (simp add: upt_rec)

text \<open>
  C2 (point-in-time semantics), as amended. In a run whose set walks are faithful, the
  snapshot of a date holds exactly the tickers obtained from the current membership by
  undoing, newest first, the events with an effective date strictly after that date. In
  the scenario the current membership is A, B, C, so the snapshot for 2023-05-01 is A, B, C
  (undoing the ADD of D discards a ticker that is not there), and the snapshot for
  2023-07-01 is A, B, C as well: no event is later, the current membership is returned as
  it is, and D is in neither snapshot.
\<close>

theorem point_in_time_snapshots:
  assumes "enumerates walk"
  shows "(finite S \<and> s \<in> set (weekly_snapshots walk m start_date end_date (sort_reverse evs) S)
          \<longrightarrow> set (tickers s) = fold undo (events_after (week_start s) (sort_reverse evs)) S)
       \<and> build_history walk scenario_current scenario_changes 19478 19478 =
           Inr [\<lparr> week_start = 19478, tickers = [''A'', ''B'', ''C''],
                  names = [''Alpha'', ''Beta'', ''Gamma''] \<rparr>]
       \<and> build_history walk scenario_current scenario_changes 19539 19539 =
           Inr [\<lparr> week_start = 19539, tickers = [''A'', ''B'', ''C''],
                  names = [''Alpha'', ''Beta'', ''Gamma''] \<rparr>]"
proof (intro conjI impI)
  assume a: "finite S \<and> s \<in> set (weekly_snapshots walk m start_date end_date (sort_reverse evs) S)"
  then have fin: "finite S"
    and mem: "s \<in> set (weekly_snapshots walk m start_date end_date (sort_reverse evs) S)"
    by simp_all
  have "tickers s = sorted_list_of_set (members_at (sort_reverse evs) S (week_start s))"
    by (rule snapshot_members[OF assms fin mem])
  then show "set (tickers s) = fold undo (events_after (week_start s) (sort_reverse evs)) S"
    using finite_members_at[OF fin, of "sort_reverse evs" "week_start s"]
    by (simp add: members_at_events_after)
next
  have "build_history ascending_walk scenario_current scenario_changes 19478 19478 =
           Inr [\<lparr> week_start = 19478, tickers = [''A'', ''B'', ''C''],
                  names = [''Alpha'', ''Beta'', ''Gamma''] \<rparr>]"
    by code_simp
  then show "build_history walk scenario_current scenario_changes 19478 19478 =
           Inr [\<lparr> week_start = 19478, tickers = [''A'', ''B'', ''C''],
                  names = [''Alpha'', ''Beta'', ''Gamma''] \<rparr>]"
    by (simp only: build_history_walk[OF assms])
next
  have "build_history ascending_walk scenario_current scenario_changes 19539 19539 =
           Inr [\<lparr> week_start = 19539, tickers = [''A'', ''B'', ''C''],
                  names = [''Alpha'', ''Beta'', ''Gamma''] \<rparr>]"
    by code_simp
  then show "build_history walk scenario_current scenario_changes 19539 19539 =
           Inr [\<lparr> week_start = 19539, tickers = [''A'', ''B'', ''C''],
                  names = [''Alpha'', ''Beta'', ''Gamma''] \<rparr>]"
    by (simp only: build_history_walk[OF assms])
qed

text \<open>
  C2 as stated fails: for 2023-07-01 the builder returns A, B, C and not A, B, C, D.
\<close>

theorem point_in_time_counterexample:
  "build_history ascending_walk scenario_current scenario_changes 19539 19539 =
     Inr [\<lparr> week_start = 19539, tickers = [''A'', ''B'', ''C''],
            names = [''Alpha'', ''Beta'', ''Gamma''] \<rparr>]
   \<and> set [''A'', ''B'', ''C''] \<noteq> {''A'', ''B'', ''C'', ''D''}"
  by code_simp

theorem point_in_time_witness:
  "enumerates ascending_walk
   \<and> finite {''A'', ''B''}
   \<and> \<lparr> week_start = 5, tickers = [''A'', ''C''], names = [''NA'', ''NA''] \<rparr>
       \<in> set (weekly_snapshots ascending_walk Map.empty 5 5
                (sort_reverse [(10, ''C'', ''REMOVE'', ''Gamma''), (20, ''B'', ''ADD'', ''Beta'')])
                {''A'', ''B''})
   \<and> set [''A'', ''C''] =
       fold undo (events_after 5
                    (sort_reverse [(10, ''C'', ''REMOVE'', ''Gamma''), (20, ''B'', ''ADD'', ''Beta'')]))
         {''A'', ''B''}"
proof -
  have mem: "\<lparr> week_start = 5, tickers = [''A'', ''C''], names = [''NA'', ''NA''] \<rparr>
       \<in> set (weekly_snapshots ascending_walk Map.empty 5 5
                (sort_reverse [(10, ''C'', ''REMOVE'', ''Gamma''), (20, ''B'', ''ADD'', ''Beta'')])
                {''A'', ''B''})"
    by code_simp
  have fin: "finite {''A'', ''B''}" by simp
  show ?thesis
    using point_in_time_snapshots[OF enumerates_ascending, THEN conjunct1, rule_format,
            OF conjI[OF fin mem]]
          enumerates_ascending fin mem
    by simp
qed

text \<open>
  C1 (round trip of the backward replay), as amended. Take any snapshot of the timeline
  and suppose every undo performed for it met the working set in the state its event
  implies (\<open>consistent\<close>). Then re-applying the events with an effective date after the
  snapshot date to the snapshot's members, in ascending order of
  \<open>(date, ticker, action, name)\<close>, which is the reverse of the order of undoing, gives back
  the current membership.
\<close>

theorem replay_round_trip_consistent:
  assumes "enumerates walk" and "finite S"
    and "s \<in> set (weekly_snapshots walk m start_date end_date (sort_reverse evs) S)"
    and "consistent S (events_after (week_start s) (sort_reverse evs))"
  shows "fold redo (events_after (week_start s) (sort evs)) (set (tickers s)) = S"
proof -
  have "tickers s = sorted_list_of_set (members_at (sort_reverse evs) S (week_start s))"
    by (rule snapshot_members[OF assms(1,2,3)])
  then have "set (tickers s) = fold undo (events_after (week_start s) (sort_reverse evs)) S"
    using finite_members_at[OF assms(2), of "sort_reverse evs" "week_start s"]
    by (simp add: members_at_events_after)
  then show ?thesis
    by (simp add: filter_sort_rev replay_round_trip[OF assms(4)])
qed

text \<open>
  C1 as stated fails when the log does not fit the current membership: with current
  membership A and the event "B added on day 10", the snapshot of day 0 is A (the discard
  of B changes nothing) and re-applying the ADD gives A, B.
\<close>

theorem replay_round_trip_counterexample:
  "build_history ascending_walk [(''A'', ''Alpha'')]
     [\<lparr> date = Some 10, added_tickers = Some ''B'', added_names = Some ''Beta'',
        removed_tickers = None, removed_names = None, row_notes = None \<rparr>] 0 0
     = Inr [\<lparr> week_start = 0, tickers = [''A''], names = [''Alpha''] \<rparr>]
   \<and> fold redo (events_after 0 (sort [(10, ''B'', ''ADD'', ''Beta'')])) (set [''A''])
       \<noteq> set (map fst [(''A'', ''Alpha'')])"
  by code_simp

theorem replay_round_trip_witness:
  "enumerates ascending_walk
   \<and> finite {''A'', ''B''}
   \<and> \<lparr> week_start = 5, tickers = [''A'', ''C''], names = [''NA'', ''NA''] \<rparr>
       \<in> set (weekly_snapshots ascending_walk Map.empty 5 5
                (sort_reverse [(10, ''C'', ''REMOVE'', ''Gamma''), (20, ''B'', ''ADD'', ''Beta'')])
                {''A'', ''B''})
   \<and> consistent {''A'', ''B''}
        (events_after 5
           (sort_reverse [(10, ''C'', ''REMOVE'', ''Gamma''), (20, ''B'', ''ADD'', ''Beta'')]))
   \<and> fold redo
         (events_after 5 (sort [(10, ''C'', ''REMOVE'', ''Gamma''), (20, ''B'', ''ADD'', ''Beta'')]))
         (set [''A'', ''C''])
       = {''A'', ''B''}"
proof -
  have mem: "\<lparr> week_start = 5, tickers = [''A'', ''C''], names = [''NA'', ''NA''] \<rparr>
       \<in> set (weekly_snapshots ascending_walk Map.empty 5 5
                (sort_reverse [(10, ''C'', ''REMOVE'', ''Gamma''), (20, ''B'', ''ADD'', ''Beta'')])
                {''A'', ''B''})"
    by code_simp
  have fin: "finite {''A'', ''B''}" by simp
  have con: "consistent {''A'', ''B''}
        (events_after
           (week_start \<lparr> week_start = 5, tickers = [''A'', ''C''], names = [''NA'', ''NA''] \<rparr>)
           (sort_reverse [(10, ''C'', ''REMOVE'', ''Gamma''), (20, ''B'', ''ADD'', ''Beta'')]))"
    by code_simp
  show ?thesis
    using replay_round_trip_consistent[OF enumerates_ascending fin mem con]
          enumerates_ascending fin mem con
    by simp
qed

text \<open>
  C6 (monotonic queue consumption). When the outer loop ends, the queue left over is the
  initial queue without its first \<open>k\<close> events, the working set is the current membership
  with exactly these \<open>k\<close> events undone, once each and in queue order, and \<open>k\<close>, the
  number of pops and of undo operations, is at most the number of events dated strictly
  after the earliest snapshot date (and so at most the number dated after
  \<open>start_date\<close>).
\<close>

theorem queue_consumed_once:
  assumes "weekly_loop walk m start_date end_date (evs, S, []) = (evs', S', snaps)"
  shows "length evs' \<le> length evs
       \<and> evs' = drop (length evs - length evs') evs
       \<and> S' = fold undo (take (length evs - length evs') evs) S
       \<and> length evs - length evs' \<le> length (events_after start_date evs)
       \<and> (snaps \<noteq> [] \<longrightarrow>
            length evs - length evs' \<le> length (events_after (week_start (last snaps)) evs))"
proof (cases "start_date \<le> end_date")
  case False
  then have "weekly_loop walk m start_date end_date (evs, S, []) = (evs, S, [])"
    by (simp add: weekly_loop.simps)
  with assms show ?thesis by simp
next
  case True
  let ?ld = "last_date start_date end_date"
  let ?P = "\<lambda>e. ?ld < fst e"
  have st: "evs' = dropWhile ?P evs" "S' = fold undo (takeWhile ?P evs) S"
    using weekly_loop_state[OF assms] True by (simp_all add: members_at_def)
  have sn: "snaps = weekly_snapshots walk m start_date end_date evs S"
    using assms by (simp add: weekly_snapshots_def)
  have k: "length evs - length evs' = length (takeWhile ?P evs)"
  proof -
    have "length (takeWhile ?P evs) + length (dropWhile ?P evs) = length evs"
      by (metis length_append takeWhile_dropWhile_id)
    then show ?thesis unfolding st by simp
  qed
  have b1: "length (takeWhile ?P evs) \<le> length (events_after ?ld evs)"
    by (simp add: events_after_def length_takeWhile_filter)
  have b2: "length (events_after ?ld evs) \<le> length (events_after start_date evs)"
    unfolding events_after_def
    using start_le_last_date[OF True] by (intro length_filter_mono) auto
  have ls: "week_start (last snaps) = ?ld"
    unfolding sn by (rule last_weekly_snapshots(2)[OF True])
  have "length evs' \<le> length evs"
    unfolding st by (rule length_dropWhile_le)
  moreover have "evs' = drop (length evs - length evs') evs"
    unfolding k unfolding st by (rule dropWhile_eq_drop)
  moreover have "S' = fold undo (take (length evs - length evs') evs) S"
    unfolding k unfolding st by (simp add: takeWhile_eq_take[symmetric])
  moreover have "length evs - length evs' \<le> length (events_after start_date evs)"
    unfolding k using b1 b2 by simp
  moreover have "length evs - length evs' \<le> length (events_after (week_start (last snaps)) evs)"
    unfolding k ls using b1 by simp
  ultimately show ?thesis by simp
qed

theorem queue_consumed_once_witness:
  "weekly_loop ascending_walk Map.empty 5 12
     ([(20, ''B'', ''ADD'', ''Beta''), (10, ''C'', ''REMOVE'', ''Gamma''), (3, ''E'', ''ADD'', ''Eps'')],
      set [''A'', ''B''], [])
   = ([(3, ''E'', ''ADD'', ''Eps'')], set [''A'', ''C''],
      [\<lparr> week_start = 12, tickers = [''A''], names = [''NA''] \<rparr>,
       \<lparr> week_start = 5, tickers = [''A'', ''C''], names = [''NA'', ''NA''] \<rparr>])
   \<and> length [(20, ''B'', ''ADD'', ''Beta''), (10, ''C'', ''REMOVE'', ''Gamma''), (3, ''E'', ''ADD'', ''Eps'')]
       - length [(3, ''E'', ''ADD'', ''Eps'')]
       \<le> length (events_after 5
            [(20, ''B'', ''ADD'', ''Beta''), (10, ''C'', ''REMOVE'', ''Gamma''), (3, ''E'', ''ADD'', ''Eps'')])"
proof -
  have run: "weekly_loop ascending_walk Map.empty 5 12
     ([(20, ''B'', ''ADD'', ''Beta''), (10, ''C'', ''REMOVE'', ''Gamma''), (3, ''E'', ''ADD'', ''Eps'')],
      set [''A'', ''B''], [])
   = ([(3, ''E'', ''ADD'', ''Eps'')], set [''A'', ''C''],
      [\<lparr> week_start = 12, tickers = [''A''], names = [''NA''] \<rparr>,
       \<lparr> week_start = 5, tickers = [''A'', ''C''], names = [''NA'', ''NA''] \<rparr>])"
    by code_simp
  show ?thesis
    using queue_consumed_once[OF run] run by simp
qed

text \<open>
  C8 (name alignment and fallback). In every snapshot the list of names is as long as the
  list of tickers, the name at each position is the entry of \<^verbatim>\<open>ticker_to_name\<close> for the
  ticker at that position, and a ticker without an entry gets the placeholder \<^verbatim>\<open>"NA"\<close>.
\<close>

theorem names_aligned:
  assumes "s \<in> set (weekly_snapshots walk ticker_to_name start_date end_date evs S)"
  shows "length (names s) = length (tickers s)
       \<and> (\<forall>i<length (tickers s).
            names s ! i =
              (case ticker_to_name (tickers s ! i) of None \<Rightarrow> ''NA'' | Some n \<Rightarrow> n))"
proof -
  have "names s = map (get_name ticker_to_name) (tickers s)"
    by (subst (1 2) in_weekly_snapshots[OF assms]) (simp add: make_snapshot_def)
  then show ?thesis by (simp add: get_name_def)
qed

theorem names_aligned_witness:
  "\<lparr> week_start = 5, tickers = [''A'', ''C''], names = [''Alpha'', ''NA''] \<rparr>
     \<in> set (weekly_snapshots ascending_walk [''A'' \<mapsto> ''Alpha''] 5 5
              [(10, ''C'', ''REMOVE'', ''Gamma'')] (set [''A'']))
   \<and> length [''Alpha'', ''NA''] = length [''A'', ''C'']
   \<and> [''A'' \<mapsto> ''Alpha''] ''C'' = None
   \<and> [''Alpha'', ''NA''] ! 1 = ''NA''"
proof -
  have mem: "\<lparr> week_start = 5, tickers = [''A'', ''C''], names = [''Alpha'', ''NA''] \<rparr>
     \<in> set (weekly_snapshots ascending_walk [''A'' \<mapsto> ''Alpha''] 5 5
              [(10, ''C'', ''REMOVE'', ''Gamma'')] (set [''A'']))"
    by code_simp
  show ?thesis
    using names_aligned[OF mem] mem by simp
qed

subsection \<open>The names of a whole run\<close>

lemma dom_fold_names:
  "dom (fold (\<lambda>p m. m(fst p \<mapsto> snd p)) ps m) = dom m \<union> fst ` set ps"
  by (induction ps arbitrary: m) auto

lemma dom_dict_zip: "dom (dict_zip (map fst kvs) (map snd kvs)) = fst ` set kvs"
proof -
  have "dom (fold (\<lambda>(k, v) m. m(k \<mapsto> v)) ps m) = dom m \<union> fst ` set ps"
    for ps :: "('a \<times> 'b) list" and m
    by (induction ps arbitrary: m) auto
  then show ?thesis
    by (simp add: dict_zip_def zip_map_fst_snd)
qed

lemma record_side_known:
  assumes "record_side a d tc nc (cl, m) = Inr (cl', m')"
    and "(\<lambda>e. fst (snd e)) ` set cl \<union> K \<subseteq> dom m"
  shows "(\<lambda>e. fst (snd e)) ` set cl' \<union> K \<subseteq> dom m'"
proof (cases "tc \<noteq> None \<longrightarrow> nc \<noteq> None")
  case True
  from assms(1) have
    "cl' = cl @ map (\<lambda>p. (d, fst p, a, snd p))
              (zip (map (\<lambda>t. str_upper (str_strip t)) (cell_items tc)) (map str_strip (cell_items nc)))"
    "m' = fold (\<lambda>p m. m(fst p \<mapsto> snd p))
              (zip (map (\<lambda>t. str_upper (str_strip t)) (cell_items tc)) (map str_strip (cell_items nc))) m"
    by (simp_all add: record_side_events[OF True] fold_record_event)
  with assms(2) show ?thesis
    by (auto simp: dom_fold_names image_Un image_image)
next
  case False
  with assms(1) show ?thesis
    by (auto simp: record_side_def split: option.splits)
qed

lemma parse_row_known:
  assumes "parse_row row (cl, m) = Inr (cl', m')"
    and "(\<lambda>e. fst (snd e)) ` set cl \<union> K \<subseteq> dom m"
  shows "(\<lambda>e. fst (snd e)) ` set cl' \<union> K \<subseteq> dom m'"
proof (cases "date row")
  case None
  with assms show ?thesis by (simp add: parse_row_def)
next
  case (Some d)
  with assms(1) obtain cl1 m1 where
    a: "record_side ''ADD'' d (added_tickers row) (added_names row) (cl, m) = Inr (cl1, m1)"
    and r: "record_side ''REMOVE'' d (removed_tickers row) (removed_names row) (cl1, m1) = Inr (cl', m')"
    by (auto simp: parse_row_def split: sum.splits)
  show ?thesis
    by (rule record_side_known[OF r record_side_known[OF a assms(2)]])
qed

lemma parse_changes_known:
  assumes "parse_changes rows (cl, m) = Inr (cl', m')"
    and "(\<lambda>e. fst (snd e)) ` set cl \<union> K \<subseteq> dom m"
  shows "(\<lambda>e. fst (snd e)) ` set cl' \<union> K \<subseteq> dom m'"
  using assms
proof (induction rows arbitrary: cl m)
  case Nil
  then show ?case by simp
next
  case (Cons row rows)
  from Cons.prems(1) obtain cl1 m1 where
    p: "parse_row row (cl, m) = Inr (cl1, m1)"
    and q: "parse_changes rows (cl1, m1) = Inr (cl', m')"
    by (auto split: sum.splits)
  show ?case
    by (rule Cons.IH[OF q parse_row_known[OF p Cons.prems(2)]])
qed

lemma undo_subset: "undo e S \<subseteq> insert (fst (snd e)) S"
  by (induction e S rule: undo.induct) auto

lemma fold_undo_subset: "fold undo es S \<subseteq> S \<union> (\<lambda>e. fst (snd e)) ` set es"
proof (induction es arbitrary: S)
  case Nil
  then show ?case by simp
next
  case (Cons e es)
  have "fold undo es (undo e S) \<subseteq> undo e S \<union> (\<lambda>e. fst (snd e)) ` set es"
    by (rule Cons.IH)
  with undo_subset[of e S] show ?case by auto
qed

lemma members_at_subset: "members_at evs S d \<subseteq> S \<union> (\<lambda>e. fst (snd e)) ` set evs"
proof -
  have "set (takeWhile (\<lambda>e. d < fst e) evs) \<subseteq> set evs"
    by (auto dest: set_takeWhileD)
  with fold_undo_subset[of "takeWhile (\<lambda>e. d < fst e) evs" S] show ?thesis
    unfolding members_at_def by blast
qed

text \<open>
  In a run of the whole script the fallback of \<^verbatim>\<open>ticker_to_name.get(t, "NA")\<close> is never
  taken: every current ticker and every ticker of a recorded event has an entry.
\<close>

lemma names_always_known:
  assumes "enumerates walk"
    and "parse_changes changes_table
           ([], dict_zip (map fst current_table) (map snd current_table))
         = Inr (change_log, ticker_to_name)"
    and "s \<in> set (weekly_snapshots walk ticker_to_name start_date end_date
                    (sort_reverse change_log) (set (map fst current_table)))"
    and "t \<in> set (tickers s)"
  shows "ticker_to_name t \<noteq> None"
proof -
  let ?S = "set (map fst current_table)"
  have "(\<lambda>e. fst (snd e)) ` set ([] :: event list) \<union> ?S
          \<subseteq> dom (dict_zip (map fst current_table) (map snd current_table))"
    by (simp add: dom_dict_zip)
  from parse_changes_known[OF assms(2) this]
  have k: "(\<lambda>e. fst (snd e)) ` set change_log \<union> ?S \<subseteq> dom ticker_to_name" .
  have fin: "finite ?S" by simp
  have "tickers s = sorted_list_of_set (members_at (sort_reverse change_log) ?S (week_start s))"
    by (rule snapshot_members[OF assms(1) fin assms(3)])
  with assms(4) have "t \<in> members_at (sort_reverse change_log) ?S (week_start s)"
    using finite_members_at[OF fin, of "sort_reverse change_log" "week_start s"] by simp
  with members_at_subset[of "sort_reverse change_log" ?S "week_start s"]
  have "t \<in> ?S \<union> (\<lambda>e. fst (snd e)) ` set (sort_reverse change_log)" by blast
  moreover have "set (sort_reverse change_log) = set change_log"
    by (rule mset_eq_setD[OF mset_sort_reverse])
  ultimately have "t \<in> dom ticker_to_name" using k by auto
  then show ?thesis by auto
qed

subsection \<open>Determinism\<close>

text \<open>
  C9 (determinism). Two runs on the same two tables and the same date range return the
  same result, snapshot for snapshot, whatever the orders in which their hash sets yield
  the members: every list written to a snapshot has gone through \<^verbatim>\<open>sorted\<close>.
\<close>

theorem build_deterministic:
  assumes "enumerates walk1" and "enumerates walk2"
  shows "build_history walk1 current_table changes_table start_date end_date =
         build_history walk2 current_table changes_table start_date end_date"
  by (simp only: build_history_walk[OF assms(1)] build_history_walk[OF assms(2)])

theorem build_deterministic_witness:
  "enumerates ascending_walk \<and> enumerates descending_walk
   \<and> descending_walk 19478 (set [''A'', ''B'', ''C'']) \<noteq> ascending_walk 19478 (set [''A'', ''B'', ''C''])
   \<and> build_history ascending_walk scenario_current scenario_changes 19478 19478 =
       build_history descending_walk scenario_current scenario_changes 19478 19478"
proof -
  have "descending_walk 19478 (set [''A'', ''B'', ''C'']) \<noteq> ascending_walk 19478 (set [''A'', ''B'', ''C''])"
    by code_simp
  then show ?thesis
    using build_deterministic[OF enumerates_ascending enumerates_descending]
          enumerates_ascending enumerates_descending
    by simp
qed

section \<open>Properties of the selection step\<close>

lemma ranks_before_key: "ranks_before a b \<longleftrightarrow> selection_key a \<le> selection_key b"
  by (auto simp: ranks_before_def selection_key_def less_eq_prod_def)

lemma sorted_wrt_take: "sorted_wrt R xs \<Longrightarrow> sorted_wrt R (take n xs)"
  by (metis append_take_drop_id sorted_wrt_append)

text \<open>
  C3 (top-N selection). The selection holds at most \<open>top_n\<close> pairs, all taken from the
  tally, in descending order of count and, among equal counts, ascending order of ticker;
  with the configured \<open>TOP_N_WEEKLY\<close> that is at most five pairs. When ZZZ and AAA both
  have count 3 and one ticker is selected, the selection is AAA with count 3.
\<close>

theorem top_selection_bounded_sorted:
  "length (top_selection top_n tally) \<le> top_n
   \<and> length (top_selection TOP_N_WEEKLY tally) \<le> 5
   \<and> sorted_wrt ranks_before (top_selection top_n tally)
   \<and> mset (top_selection top_n tally) \<subseteq># mset tally
   \<and> top_selection 1 [(''ZZZ'', 3), (''AAA'', 3)] = [(''AAA'', 3)]"
proof -
  have s: "sorted_wrt ranks_before (sort_key selection_key tally)"
    using sorted_sort_key[of selection_key tally]
    by (simp add: sorted_map ranks_before_key[abs_def])
  have m: "mset (take top_n (sort_key selection_key tally)) \<subseteq># mset tally"
    by (metis append_take_drop_id mset_sort mset_subset_eq_add_left union_code)
  have e: "top_selection 1 [(''ZZZ'', 3), (''AAA'', 3)] = [(''AAA'', 3)]"
    by code_simp
  show ?thesis
    using s m e by (simp add: top_selection_def TOP_N_WEEKLY_def sorted_wrt_take)
qed

section \<open>Properties of \<^verbatim>\<open>calculate_metrics\<close>\<close>

lemma scan_eq_Nil: "scan f xs = [] \<longleftrightarrow> xs = []"
  by (cases xs) simp_all

lemma iloc_last_Inr: "xs \<noteq> [] \<Longrightarrow> iloc_last xs = Inr (last xs)"
  by (cases xs) (simp_all add: iloc_last_def)

text \<open>
  C10 (the metrics need a non-empty series). On the empty series the function raises: the
  read of \<^verbatim>\<open>cumulative_returns.iloc[-1]\<close> is out of bounds, and \<open>years\<close> is zero, so the
  division \<^verbatim>\<open>1 / years\<close> would raise as well. On every non-empty series \<open>years\<close> is not
  zero, the division yields \<open>52 / len(returns_df)\<close>, and the function returns a record.
\<close>

theorem calculate_metrics_nonempty:
  "calculate_metrics np [] risk_free_rate = Inl IndexError
   \<and> years ([] :: 'f list) = 0
   \<and> py_truediv 1 (years ([] :: 'f list)) = Inl ZeroDivisionError
   \<and> (returns_df \<noteq> [] \<longrightarrow>
        years returns_df \<noteq> 0
        \<and> py_truediv 1 (years returns_df) = Inr (52 / real (length returns_df))
        \<and> (\<exists>m. calculate_metrics (np :: 'f float_ops) returns_df risk_free_rate = Inr m))"
proof -
  have e: "calculate_metrics np [] risk_free_rate = Inl IndexError"
    by (simp add: calculate_metrics_def iloc_last_def)
  have z: "years ([] :: 'f list) = 0" "py_truediv 1 (years ([] :: 'f list)) = Inl ZeroDivisionError"
    by (simp_all add: years_def py_truediv_def)
  have n: "years returns_df \<noteq> 0
        \<and> py_truediv 1 (years returns_df) = Inr (52 / real (length returns_df))
        \<and> (\<exists>m. calculate_metrics np returns_df risk_free_rate = Inr m)"
    if ne: "returns_df \<noteq> []"
  proof -
    have y: "years returns_df \<noteq> 0" using ne by (simp add: years_def)
    have d: "py_truediv 1 (years returns_df) = Inr (52 / real (length returns_df))"
      using y by (simp add: py_truediv_def) (simp add: years_def)
    have c: "scan (f_mul np) (map (f_add np (f_of_real np 1)) returns_df) \<noteq> []"
      using ne by (simp add: scan_eq_Nil)
    have "\<exists>m. calculate_metrics np returns_df risk_free_rate = Inr m"
      unfolding calculate_metrics_def Let_def
      by (simp add: iloc_last_Inr[OF c] d)
    with y d show ?thesis by simp
  qed
  show ?thesis using e z n by blast
qed

theorem calculate_metrics_witness:
  "[1 / 10, - 1 / 20 :: real] \<noteq> []
   \<and> years [1 / 10, - 1 / 20 :: real] = 1 / 26
   \<and> py_truediv 1 (years [1 / 10, - 1 / 20 :: real]) = Inr 26
   \<and> map_sum id cumulative_return (calculate_metrics real_ops [1 / 10, - 1 / 20] 0)
       = Inr [11 / 10, 209 / 200]"
proof -
  have ne: "[1 / 10, - 1 / 20 :: real] \<noteq> []" by simp
  have c: "map_sum id cumulative_return (calculate_metrics real_ops [1 / 10, - 1 / 20] 0)
       = Inr [11 / 10, 209 / 200]"
    by (simp add: calculate_metrics_def real_ops_def iloc_last_def py_truediv_def years_def Let_def)
  show ?thesis
    using calculate_metrics_nonempty[of real_ops 0 "[1 / 10, - 1 / 20]", THEN conjunct2,
            THEN conjunct2, THEN conjunct2, rule_format, OF ne] ne c
    by (simp add: years_def)
qed

end
